theory Spec2Isabelle
  imports Main "HOL-Library.Sublist"
begin

section \<open>Strings of the source language\<close>


definition toUpperCase_char :: "char \<Rightarrow> char" where
  "toUpperCase_char c =
     (case map_of (zip ''abcdefghijklmnopqrstuvwxyz'' ''ABCDEFGHIJKLMNOPQRSTUVWXYZ'') c of
        Some u \<Rightarrow> u
      | None \<Rightarrow> c)"

definition isWhiteSpace :: "char \<Rightarrow> bool" where
  "isWhiteSpace c = (c \<in> {CHR 0x09, CHR 0x0A, CHR 0x0B, CHR 0x0C, CHR 0x0D, CHR 0x20})"

text \<open>\<^verbatim>\<open>s.toUpperCase()\<close> and \<^verbatim>\<open>s.charAt(i)\<close>, which is the empty string out of range.\<close>

definition toUpperCase :: "string \<Rightarrow> string" where
  "toUpperCase s = map toUpperCase_char s"

definition charAt :: "string \<Rightarrow> nat \<Rightarrow> string" where
  "charAt s i = (if i < length s then [s ! i] else [])"

text \<open>\<^verbatim>\<open>s.startsWith(p)\<close> and \<^verbatim>\<open>s.includes(p)\<close>.\<close>

definition startsWith :: "string \<Rightarrow> string \<Rightarrow> bool" where
  "startsWith s p = prefix p s"

fun includes_str :: "string \<Rightarrow> string \<Rightarrow> bool" where
  "includes_str [] p = (p = [])"
| "includes_str (c # cs) p = (prefix p (c # cs) \<or> includes_str cs p)"

text \<open>
  \<^verbatim>\<open>s.replace(p, r)\<close> with a string pattern: the first occurrence of \<open>p\<close> is replaced, and
  a string without \<open>p\<close> is returned as it is. None of the replacement strings of the
  program contains a dollar sign, so the replacement is literal.
\<close>

fun replace_str :: "string \<Rightarrow> string \<Rightarrow> string \<Rightarrow> string" where
  "replace_str [] p r = (if p = [] then r else [])"
| "replace_str (c # cs) p r =
     (if prefix p (c # cs) then r @ drop (length p) (c # cs) else c # replace_str cs p r)"

text \<open>\<^verbatim>\<open>s.trim()\<close>.\<close>

definition trim :: "string \<Rightarrow> string" where
  "trim s = rev (dropWhile isWhiteSpace (rev (dropWhile isWhiteSpace s)))"

text \<open>
  \<^verbatim>\<open>s.slice(a, b)\<close> and \<^verbatim>\<open>s.slice(a)\<close>: a negative index counts from the end of the string,
  and every index is clamped to the string.
\<close>

definition slice_index :: "nat \<Rightarrow> int \<Rightarrow> nat" where
  "slice_index n k = (if k < 0 then nat (max (int n + k) 0) else min (nat k) n)"

definition slice :: "string \<Rightarrow> int \<Rightarrow> int \<Rightarrow> string" where
  "slice s a b =
     (let from = slice_index (length s) a; to = slice_index (length s) b
      in take (to - from) (drop from s))"

definition slice_from :: "string \<Rightarrow> int \<Rightarrow> string" where
  "slice_from s a = drop (slice_index (length s) a) s"

section \<open>Regular expressions\<close>

text \<open>
  The regular expressions of the program use literals, character classes, \<^verbatim>\<open>\s\<close>, the
  anchors \<^verbatim>\<open>^\<close> and \<^verbatim>\<open>$\<close> (without the multiline flag), sequence, alternation, the greedy
  quantifiers \<^verbatim>\<open>*\<close> and \<^verbatim>\<open>+\<close> and capturing groups.
\<close>

datatype regex =
    Eps
  | Chr char
  | OneOf "char list"
  | NoneOf "char list"
  | Space
  | Bol
  | Eol
  | Seq regex regex
  | Alt regex regex
  | Star regex
  | Group nat regex

text \<open>
  A matcher state is a position in the input, the input from that position on, and the
  captures made so far (the latest capture of a group first).
\<close>

record mstate =
  pos :: nat
  rest :: string
  caps :: "(nat \<times> string) list"

text \<open>
  Under the flag \<^verbatim>\<open>i\<close> two characters match when their canonical forms are equal; the
  canonical form of an ASCII character is its upper case.
\<close>

definition canonicalize :: "bool \<Rightarrow> char \<Rightarrow> char" where
  "canonicalize ic c = (if ic then toUpperCase_char c else c)"

definition advance :: "mstate \<Rightarrow> mstate" where
  "advance st = st\<lparr>pos := Suc (pos st), rest := tl (rest st)\<rparr>"

definition step_char :: "(char \<Rightarrow> bool) \<Rightarrow> mstate \<Rightarrow> mstate list" where
  "step_char p st = (case rest st of [] \<Rightarrow> [] | x # _ \<Rightarrow> if p x then [advance st] else [])"

text \<open>
  The backtracking matcher, as the list of its successes in the order in which
  backtracking reaches them: the head of the list is the match the engine reports.
  A sequence continues from every success of its first part; an alternation tries its
  left side first; a star is greedy and, as in the language's definition, gives up an
  iteration that consumes nothing.
\<close>

function (sequential) rmatch :: "bool \<Rightarrow> regex \<Rightarrow> mstate \<Rightarrow> mstate list" where
  "rmatch ic Eps st = [st]"
| "rmatch ic (Chr c) st = step_char (\<lambda>x. canonicalize ic x = canonicalize ic c) st"
| "rmatch ic (OneOf cs) st = step_char (\<lambda>x. canonicalize ic x \<in> canonicalize ic ` set cs) st"
| "rmatch ic (NoneOf cs) st = step_char (\<lambda>x. canonicalize ic x \<notin> canonicalize ic ` set cs) st"
| "rmatch ic Space st = step_char isWhiteSpace st"
| "rmatch ic Bol st = (if pos st = 0 then [st] else [])"
| "rmatch ic Eol st = (if rest st = [] then [st] else [])"
| "rmatch ic (Seq r1 r2) st = concat (map (rmatch ic r2) (rmatch ic r1 st))"
| "rmatch ic (Alt r1 r2) st = rmatch ic r1 st @ rmatch ic r2 st"
| "rmatch ic (Star r) st =
     concat (map (rmatch ic (Star r))
       (filter (\<lambda>st'. length (rest st') < length (rest st)) (rmatch ic r st))) @ [st]"
| "rmatch ic (Group n r) st =
     map (\<lambda>st'. st'\<lparr>caps := (n, take (pos st' - pos st) (rest st)) # caps st'\<rparr>) (rmatch ic r st)"
  by pat_completeness auto
termination
  by (relation "inv_image (less_than <*lex*> less_than) (\<lambda>(ic, r, st). (size r, length (rest st)))")
     auto

text \<open>The equation of the star is unfolded by hand: as a rewrite rule it would not stop.\<close>

declare rmatch.simps(10) [simp del]

text \<open>
  \<^verbatim>\<open>r+\<close> is one \<open>r\<close> followed by \<^verbatim>\<open>r*\<close>. A pattern \<^verbatim>\<open>abc\<close> is the sequence of its
  parts, closed by the empty pattern, and an alternation \<^verbatim>\<open>a|b|c\<close> tries its branches from
  left to right; its closing branch is the empty class, which matches nothing.
\<close>

definition Plus :: "regex \<Rightarrow> regex" where
  "Plus r = Seq r (Star r)"

definition seqs :: "regex list \<Rightarrow> regex" where
  "seqs rs = foldr Seq rs Eps"

definition lit :: "string \<Rightarrow> regex" where
  "lit s = seqs (map Chr s)"

definition alts :: "regex list \<Rightarrow> regex" where
  "alts rs = foldr Alt rs (OneOf [])"

text \<open>
  The search for the leftmost match from position \<open>i\<close>, where \<open>cs\<close> is the input from
  \<open>i\<close> on: the start position and the final state of the match.
\<close>

fun search :: "bool \<Rightarrow> regex \<Rightarrow> nat \<Rightarrow> string \<Rightarrow> (nat \<times> mstate) option" where
  "search ic r i [] =
     (case rmatch ic r \<lparr>pos = i, rest = [], caps = []\<rparr> of
        m # _ \<Rightarrow> Some (i, m)
      | [] \<Rightarrow> None)"
| "search ic r i (c # cs) =
     (case rmatch ic r \<lparr>pos = i, rest = c # cs, caps = []\<rparr> of
        m # _ \<Rightarrow> Some (i, m)
      | [] \<Rightarrow> search ic r (Suc i) cs)"

text \<open>
  The text of capturing group \<open>n\<close> of a match. A group that took no part in the match
  reads \<^verbatim>\<open>undefined\<close> in the source; the groups of the program's expressions lie on every
  path through them.
\<close>

definition capture :: "mstate \<Rightarrow> nat \<Rightarrow> string" where
  "capture m n = (case map_of (caps m) n of Some w \<Rightarrow> w | None \<Rightarrow> [])"

text \<open>\<^verbatim>\<open>s.replace(re, r)\<close> for an expression without the flag \<^verbatim>\<open>g\<close>.\<close>

definition replace_regex :: "bool \<Rightarrow> regex \<Rightarrow> string \<Rightarrow> string \<Rightarrow> string" where
  "replace_regex ic r s rep =
     (case search ic r 0 s of
        None \<Rightarrow> s
      | Some (i, m) \<Rightarrow> take i s @ rep @ rest m)"

text \<open>
  The loop \<^verbatim>\<open>while ((match = re.exec(content)) !== null)\<close> of an expression with the flag
  \<^verbatim>\<open>g\<close>, from \<^verbatim>\<open>lastIndex = li\<close>: every call searches from \<^verbatim>\<open>lastIndex\<close> and moves it to
  the end of the match it found. An empty match at \<^verbatim>\<open>lastIndex\<close> leaves it where it is,
  and the loop of the source then never ends: that is the result \<open>None\<close>.
\<close>

function exec_all :: "bool \<Rightarrow> regex \<Rightarrow> string \<Rightarrow> nat \<Rightarrow> (nat \<times> mstate) list option" where
  "exec_all ic r s li =
     (if length s < li then Some []
      else case search ic r li (drop li s) of
        None \<Rightarrow> Some []
      | Some (i, m) \<Rightarrow>
          if pos m \<le> li then None
          else (case exec_all ic r s (pos m) of
                  None \<Rightarrow> None
                | Some ms \<Rightarrow> Some ((i, m) # ms)))"
  by pat_completeness auto
termination
  by (relation "measure (\<lambda>(ic, r, s, li). Suc (length s) - li)") auto

declare exec_all.simps [simp del]

section \<open>The optimizer\<close>

record options =
  addLazyLoading :: bool
  useWebP :: bool
  addDimensions :: bool
  optimizeAltText_opt :: bool
  backupFiles :: bool

definition default_options :: options where
  "default_options = \<lparr>addLazyLoading = True, useWebP = True, addDimensions = True,
     optimizeAltText_opt = True, backupFiles = True\<rparr>"

record stats =
  filesProcessed :: nat
  imagesOptimized :: nat
  backupsCreated :: nat

text \<open>An entry of the list \<^verbatim>\<open>images\<close>: the field \<^verbatim>\<open>type\<close> is the constructor.\<close>

datatype image =
    Markdown (image_full: string) (image_alt: string) (image_src: string) (image_index: nat)
  | Html (image_full: string) (image_src: string) (image_index: nat)

subsection \<open>analyzeImages\<close>

text \<open>\<^verbatim>\<open>/!\[([^\]]*)\]\(([^)]+)\)/g\<close>\<close>

definition imageRegex :: regex where
  "imageRegex = seqs [Chr CHR ''!'', Chr CHR ''['', Group 1 (Star (NoneOf '']'')), Chr CHR '']'',
     Chr CHR ''('', Group 2 (Plus (NoneOf '')'')), Chr CHR '')'']"

text \<open>\<^verbatim>\<open>/<img\s+[^>]*src\s*=\s*["']([^"']+)["'][^>]*>/gi\<close>\<close>

definition htmlImageRegex :: regex where
  \<open>htmlImageRegex = seqs [lit ''<img'', Plus Space, Star (NoneOf ''>''), lit ''src'', Star Space,
     Chr CHR ''='', Star Space, OneOf [CHR ''"'', CHR 0x27],
     Group 1 (Plus (NoneOf [CHR ''"'', CHR 0x27])), OneOf [CHR ''"'', CHR 0x27],
     Star (NoneOf ''>''), Chr CHR ''>'']\<close>

definition matched :: "string \<Rightarrow> nat \<times> mstate \<Rightarrow> string" where
  "matched content im = take (pos (snd im) - fst im) (drop (fst im) content)"

definition markdown_image :: "string \<Rightarrow> nat \<times> mstate \<Rightarrow> image" where
  "markdown_image content im =
     Markdown (matched content im) (capture (snd im) 1) (capture (snd im) 2) (fst im)"

definition html_image :: "string \<Rightarrow> nat \<times> mstate \<Rightarrow> image" where
  "html_image content im = Html (matched content im) (capture (snd im) 1) (fst im)"

definition analyzeImages :: "string \<Rightarrow> image list option" where
  "analyzeImages content =
     (case exec_all False imageRegex content 0 of
        None \<Rightarrow> None
      | Some ms \<Rightarrow>
          (case exec_all True htmlImageRegex content 0 of
             None \<Rightarrow> None
           | Some hs \<Rightarrow> Some (map (markdown_image content) ms @ map (html_image content) hs)))"

subsection \<open>optimizeAltText\<close>

text \<open>\<^verbatim>\<open>/^(image|picture|photo|screenshot) (of|showing) /i\<close>\<close>

definition altPrefixRegex :: regex where
  "altPrefixRegex = seqs [Bol,
     Group 1 (alts [lit ''image'', lit ''picture'', lit ''photo'', lit ''screenshot'']),
     Chr CHR '' '', Group 2 (alts [lit ''of'', lit ''showing'']), Chr CHR '' '']"

text \<open>\<^verbatim>\<open>/\.(png|jpg|jpeg|gif)$/i\<close>\<close>

definition altExtRegex :: regex where
  "altExtRegex = seqs [Chr CHR ''.'',
     Group 1 (alts [lit ''png'', lit ''jpg'', lit ''jpeg'', lit ''gif'']), Eol]"

definition optimizeAltText :: "options \<Rightarrow> string \<Rightarrow> string" where
  "optimizeAltText opts alt =
     (if alt = [] \<or> \<not> optimizeAltText_opt opts then alt
      else
        let optimized =
              trim (replace_regex True altExtRegex (replace_regex True altPrefixRegex alt []) [])
        in if optimized \<noteq> []
           then toUpperCase (charAt optimized 0) @ slice_from optimized 1
           else optimized)"

subsection \<open>optimizeMarkdownImage\<close>

text \<open>\<^verbatim>\<open>/\.(png|jpg|jpeg)$/i\<close>\<close>

definition webpRegex :: regex where
  "webpRegex = seqs [Chr CHR ''.'', Group 1 (alts [lit ''png'', lit ''jpg'', lit ''jpeg'']), Eol]"

definition isAssetImage :: "string \<Rightarrow> bool" where
  "isAssetImage src =
     (startsWith src ''./assets/'' \<or> startsWith src ''../assets/'' \<or> includes_str src ''/assets/'')"

definition optimizeMarkdownImage :: "options \<Rightarrow> string \<Rightarrow> string \<Rightarrow> string" where
  \<open>optimizeMarkdownImage opts alt src =
     (if \<not> isAssetImage src then ''!['' @ alt @ '']('' @ src @ '')''
      else
        let webpSrc = replace_regex True webpRegex src ''.webp'';
            optimizedAlt = optimizeAltText opts alt
        in ''<picture>\<newline>  <source srcset="'' @ webpSrc @ ''" type="image/webp">\<newline>''
           @ ''  <img src="'' @ src @ ''" alt="'' @ optimizedAlt
           @ ''" loading="lazy" style="max-width: 100%; height: auto;">\<newline></picture>'')\<close>

subsection \<open>optimizeHtmlImage\<close>

definition optimizeHtmlImage :: "options \<Rightarrow> string \<Rightarrow> string \<Rightarrow> string" where
  \<open>optimizeHtmlImage opts imgTag src =
     (let hasLazyLoading = includes_str imgTag ''loading='';
          hasWebP = (includes_str imgTag ''<picture>'' \<or> includes_str imgTag ''srcset'')
      in if hasLazyLoading \<and> hasWebP then imgTag
         else
           let imgTag1 =
                 (if \<not> hasLazyLoading \<and> addLazyLoading opts
                  then replace_str imgTag ''<img'' ''<img loading="lazy"''
                  else imgTag);
               imgTag2 =
                 (if \<not> includes_str imgTag1 ''style='' \<and> \<not> includes_str imgTag1 ''max-width''
                  then replace_str imgTag1 ''<img'' ''<img style="max-width: 100%; height: auto;"''
                  else imgTag1)
           in imgTag2)\<close>

subsection \<open>optimizeImageReferences\<close>

text \<open>What the loop computes for one image before it compares it with \<^verbatim>\<open>full\<close>.\<close>

fun optimized_of :: "options \<Rightarrow> image \<Rightarrow> string" where
  "optimized_of opts (Markdown f a s i) = optimizeMarkdownImage opts a s"
| "optimized_of opts (Html f s i) = optimizeHtmlImage opts f s"

text \<open>
  One turn of the loop over \<^verbatim>\<open>images\<close>, on the state \<^verbatim>\<open>optimizedContent\<close>, \<^verbatim>\<open>offset\<close> and
  \<^verbatim>\<open>this.stats\<close>.
\<close>

definition splice_image :: "options \<Rightarrow> image \<Rightarrow> string \<times> int \<times> stats \<Rightarrow> string \<times> int \<times> stats" where
  "splice_image opts img state =
     (case state of (optimizedContent, offset, st) \<Rightarrow>
        let optimized = optimized_of opts img
        in if optimized \<noteq> image_full img then
             let adjustedIndex = int (image_index img) + offset
             in (slice optimizedContent 0 adjustedIndex @ optimized
                   @ slice_from optimizedContent (adjustedIndex + int (length (image_full img))),
                 offset + (int (length optimized) - int (length (image_full img))),
                 st\<lparr>imagesOptimized := Suc (imagesOptimized st)\<rparr>)
           else state)"

text \<open>The result is the returned string with the statistics the call leaves behind.\<close>

definition optimizeImageReferences :: "options \<Rightarrow> stats \<Rightarrow> string \<Rightarrow> (string \<times> stats) option" where
  "optimizeImageReferences opts st content =
     (case analyzeImages content of
        None \<Rightarrow> None
      | Some images \<Rightarrow>
          (case fold (splice_image opts) images (content, 0, st) of
             (optimizedContent, offset, st') \<Rightarrow> Some (optimizedContent, st')))"

section \<open>The alt-text steps in the words of the specification\<close>






text \<open>
  Trim surrounding white space: the white space at the start goes, character by character,
  and then the white space at the end, which is the white space with nothing but white
  space after it.
\<close>

fun spec_trim_start :: "string \<Rightarrow> string" where
  "spec_trim_start [] = []"
| "spec_trim_start (c # cs) = (if isWhiteSpace c then spec_trim_start cs else c # cs)"

fun spec_trim_end :: "string \<Rightarrow> string" where
  "spec_trim_end [] = []"
| "spec_trim_end (c # cs) =
     (let t = spec_trim_end cs in if t = [] \<and> isWhiteSpace c then [] else c # t)"

definition spec_trim :: "string \<Rightarrow> string" where
  "spec_trim s = spec_trim_end (spec_trim_start s)"



section \<open>Definitions used in the proofs\<close>

text \<open>An expression without capturing groups leaves the captures as they are.\<close>

fun group_free :: "regex \<Rightarrow> bool" where
  "group_free (Seq r1 r2) = (group_free r1 \<and> group_free r2)"
| "group_free (Alt r1 r2) = (group_free r1 \<and> group_free r2)"
| "group_free (Star r) = group_free r"
| "group_free (Group n r) = False"
| "group_free r = True"

text \<open>
  The string \<open>w\<close> matches at the start of \<open>t\<close>, character by character in canonical form.
\<close>

definition ci_prefix :: "bool \<Rightarrow> string \<Rightarrow> string \<Rightarrow> bool" where
  "ci_prefix ic w t =
     (length w \<le> length t \<and> map (canonicalize ic) (take (length w) t) = map (canonicalize ic) w)"

text \<open>The state after \<open>n\<close> more characters of the input.\<close>

definition consume :: "nat \<Rightarrow> mstate \<Rightarrow> mstate" where
  "consume n st = st\<lparr>pos := pos st + n, rest := drop n (rest st)\<rparr>"


section \<open>The matcher\<close>

lemma rmatch_Star_elem:
  "m \<in> set (rmatch ic (Star r) st) \<Longrightarrow>
     m = st \<or> (\<exists>m1 \<in> set (rmatch ic r st). length (rest m1) < length (rest st) \<and>
                 m \<in> set (rmatch ic (Star r) m1))"
  by (subst (asm) rmatch.simps(10)) auto

lemma step_char_elem:
  "m \<in> set (step_char p st) \<Longrightarrow>
     \<exists>x. rest st = x # rest m \<and> p x \<and> pos m = Suc (pos st) \<and> caps m = caps st"
  by (cases "rest st") (auto simp: step_char_def advance_def split: if_splits)

lemma step_char_suffix:
  "m \<in> set (step_char p st) \<Longrightarrow> \<exists>w. rest st = w @ rest m \<and> pos m = pos st + length w"
proof -
  assume "m \<in> set (step_char p st)"
  from step_char_elem[OF this] obtain x where "rest st = [x] @ rest m" "pos m = pos st + length [x]"
    by auto
  then show ?thesis by blast
qed

lemma rmatch_suffix:
  "m \<in> set (rmatch ic r st) \<Longrightarrow> \<exists>w. rest st = w @ rest m \<and> pos m = pos st + length w"
proof (induction ic r st arbitrary: m rule: rmatch.induct)
  case (1 ic st)
  then show ?case by simp
next
  case (2 ic c st)
  then show ?case by (simp add: step_char_suffix)
next
  case (3 ic cs st)
  then show ?case by (simp add: step_char_suffix)
next
  case (4 ic cs st)
  then show ?case by (simp add: step_char_suffix)
next
  case (5 ic st)
  then show ?case by (simp add: step_char_suffix)
next
  case (6 ic st)
  then show ?case by (simp split: if_splits)
next
  case (7 ic st)
  then show ?case by (simp split: if_splits)
next
  case (8 ic r1 r2 st)
  from "8.prems" obtain m1 where m1: "m1 \<in> set (rmatch ic r1 st)" and m: "m \<in> set (rmatch ic r2 m1)"
    by auto
  from "8.IH"(1)[OF m1] obtain w1 where w1: "rest st = w1 @ rest m1" "pos m1 = pos st + length w1"
    by blast
  from "8.IH"(2)[OF m1 m] obtain w2 where w2: "rest m1 = w2 @ rest m" "pos m = pos m1 + length w2"
    by blast
  from w1 w2 have "rest st = (w1 @ w2) @ rest m \<and> pos m = pos st + length (w1 @ w2)"
    by simp
  then show ?case by blast
next
  case (9 ic r1 r2 st)
  from "9.prems" have "m \<in> set (rmatch ic r1 st) \<or> m \<in> set (rmatch ic r2 st)" by simp
  then show ?case using "9.IH" by blast
next
  case (10 ic r st)
  show ?case
  proof (cases "m = st")
    case True
    then show ?thesis by simp
  next
    case False
    with rmatch_Star_elem[OF "10.prems"] obtain m1 where m1: "m1 \<in> set (rmatch ic r st)"
      and less: "length (rest m1) < length (rest st)" and m: "m \<in> set (rmatch ic (Star r) m1)"
      by blast
    from "10.IH"(1)[OF m1] obtain w1 where w1: "rest st = w1 @ rest m1" "pos m1 = pos st + length w1"
      by blast
    from m1 less have "m1 \<in> set (filter (\<lambda>st'. length (rest st') < length (rest st)) (rmatch ic r st))"
      by simp
    from "10.IH"(2)[OF this m] obtain w2 where w2: "rest m1 = w2 @ rest m" "pos m = pos m1 + length w2"
      by blast
    from w1 w2 have "rest st = (w1 @ w2) @ rest m \<and> pos m = pos st + length (w1 @ w2)"
      by simp
    then show ?thesis by blast
  qed
next
  case (11 ic n r st)
  from "11.prems" obtain m1 where m1: "m1 \<in> set (rmatch ic r st)"
    and m: "rest m = rest m1" "pos m = pos m1"
    by auto
  from "11.IH"[OF m1] m show ?case by simp
qed

lemma rmatch_group_free_caps:
  "m \<in> set (rmatch ic r st) \<Longrightarrow> group_free r \<Longrightarrow> caps m = caps st"
proof (induction ic r st arbitrary: m rule: rmatch.induct)
  case (8 ic r1 r2 st)
  from "8.prems" obtain m1 where m1: "m1 \<in> set (rmatch ic r1 st)" and m: "m \<in> set (rmatch ic r2 m1)"
    by auto
  from "8.IH"(1)[OF m1] "8.IH"(2)[OF m1 m] "8.prems"(2) show ?case by simp
next
  case (9 ic r1 r2 st)
  from "9.prems" have "m \<in> set (rmatch ic r1 st) \<or> m \<in> set (rmatch ic r2 st)" by simp
  then show ?case using "9.IH" "9.prems"(2) by auto
next
  case (10 ic r st)
  show ?case
  proof (cases "m = st")
    case True
    then show ?thesis by simp
  next
    case False
    with rmatch_Star_elem[OF "10.prems"(1)] obtain m1 where m1: "m1 \<in> set (rmatch ic r st)"
      and less: "length (rest m1) < length (rest st)" and m: "m \<in> set (rmatch ic (Star r) m1)"
      by blast
    from m1 less have "m1 \<in> set (filter (\<lambda>st'. length (rest st') < length (rest st)) (rmatch ic r st))"
      by simp
    from "10.IH"(2)[OF this m] "10.IH"(1)[OF m1] "10.prems"(2) show ?thesis by simp
  qed
qed (auto dest: step_char_elem split: if_splits)

lemma rmatch_Chr_elem:
  "m \<in> set (rmatch ic (Chr c) st) \<Longrightarrow>
     \<exists>x. rest st = x # rest m \<and> canonicalize ic x = canonicalize ic c \<and>
         pos m = Suc (pos st) \<and> caps m = caps st"
  by (simp add: step_char_elem)

lemma rmatch_seqs_Cons_elem:
  "m \<in> set (rmatch ic (seqs (r # rs)) st) \<Longrightarrow>
     \<exists>m1 \<in> set (rmatch ic r st). m \<in> set (rmatch ic (seqs rs) m1)"
  by (auto simp: seqs_def)

lemma rmatch_seqs_Nil_elem: "m \<in> set (rmatch ic (seqs []) st) \<Longrightarrow> m = st"
  by (simp add: seqs_def)

lemma rmatch_Group_elem:
  assumes "m \<in> set (rmatch ic (Group n r) st)" and "group_free r"
  shows "\<exists>w. rest st = w @ rest m \<and> pos m = pos st + length w \<and> caps m = (n, w) # caps st"
proof -
  from assms(1) obtain m1 where m1: "m1 \<in> set (rmatch ic r st)"
    and m: "m = m1\<lparr>caps := (n, take (pos m1 - pos st) (rest st)) # caps m1\<rparr>"
    by auto
  from rmatch_suffix[OF m1] obtain w where w: "rest st = w @ rest m1" "pos m1 = pos st + length w"
    by blast
  from rmatch_group_free_caps[OF m1 assms(2)] have "caps m1 = caps st" .
  with m w have "rest st = w @ rest m \<and> pos m = pos st + length w \<and> caps m = (n, w) # caps st"
    by simp
  then show ?thesis by blast
qed

lemma rmatch_Plus_class_progress:
  assumes "m \<in> set (rmatch ic (Plus (NoneOf cs)) st)"
  shows "pos st < pos m"
proof -
  from assms obtain m1 where m1: "m1 \<in> set (rmatch ic (NoneOf cs) st)"
    and m: "m \<in> set (rmatch ic (Star (NoneOf cs)) m1)"
    by (auto simp: Plus_def)
  from m1 have "pos m1 = Suc (pos st)" by (auto dest: step_char_elem)
  with rmatch_suffix[OF m] show ?thesis by auto
qed

lemma imageRegex_match:
  assumes "m \<in> set (rmatch False imageRegex st)"
  shows "\<exists>a s. s \<noteq> [] \<and> rest st = ''!['' @ a @ '']('' @ s @ '')'' @ rest m \<and>
           pos m = pos st + length (''!['' @ a @ '']('' @ s @ '')'') \<and>
           caps m = (2, s) # (1, a) # caps st"
proof -
  let ?g1 = "Group 1 (Star (NoneOf '']''))" and ?g2 = "Group 2 (Plus (NoneOf '')''))"
  from assms obtain m1 m2 m3 m4 m5 m6 m7 where
    m1: "m1 \<in> set (rmatch False (Chr CHR ''!'') st)" and
    m2: "m2 \<in> set (rmatch False (Chr CHR ''['') m1)" and
    m3: "m3 \<in> set (rmatch False ?g1 m2)" and
    m4: "m4 \<in> set (rmatch False (Chr CHR '']'') m3)" and
    m5: "m5 \<in> set (rmatch False (Chr CHR ''('') m4)" and
    m6: "m6 \<in> set (rmatch False ?g2 m5)" and
    m7: "m7 \<in> set (rmatch False (Chr CHR '')'') m6)" and
    m: "m = m7"
    unfolding imageRegex_def
    by (blast dest!: rmatch_seqs_Cons_elem rmatch_seqs_Nil_elem)
  from rmatch_Group_elem[OF m3] obtain a where
    a: "rest m2 = a @ rest m3" "pos m3 = pos m2 + length a" "caps m3 = (1, a) # caps m2"
    by auto
  have gf: "group_free (Plus (NoneOf '')''))" by (simp add: Plus_def)
  from rmatch_Group_elem[OF m6 gf] obtain s where
    s: "rest m5 = s @ rest m6" "pos m6 = pos m5 + length s" "caps m6 = (2, s) # caps m5"
    by auto
  from m6 obtain m6' where "m6' \<in> set (rmatch False (Plus (NoneOf '')'')) m5)" "pos m6 = pos m6'"
    by auto
  with rmatch_Plus_class_progress have "pos m5 < pos m6" by fastforce
  with s have "s \<noteq> []" by auto
  moreover from rmatch_Chr_elem[OF m1] rmatch_Chr_elem[OF m2] rmatch_Chr_elem[OF m4]
    rmatch_Chr_elem[OF m5] rmatch_Chr_elem[OF m7] a s m
  have "rest st = ''!['' @ a @ '']('' @ s @ '')'' @ rest m \<and>
           pos m = pos st + length (''!['' @ a @ '']('' @ s @ '')'') \<and>
           caps m = (2, s) # (1, a) # caps st"
    by (auto simp: canonicalize_def)
  ultimately show ?thesis by blast
qed

lemma search_elem:
  "search ic r i t = Some (j, m) \<Longrightarrow>
     \<exists>k. j = i + k \<and> k \<le> length t \<and> m \<in> set (rmatch ic r \<lparr>pos = j, rest = drop k t, caps = []\<rparr>)"
proof (induction t arbitrary: i)
  case Nil
  then show ?case by (auto split: list.splits)
next
  case (Cons c cs)
  show ?case
  proof (cases "rmatch ic r \<lparr>pos = i, rest = c # cs, caps = []\<rparr>")
    case Nil
    with Cons.prems have "search ic r (Suc i) cs = Some (j, m)" by simp
    from Cons.IH[OF this] obtain k where
      "j = Suc i + k" "k \<le> length cs" "m \<in> set (rmatch ic r \<lparr>pos = j, rest = drop k cs, caps = []\<rparr>)"
      by blast
    then have "j = i + Suc k \<and> Suc k \<le> length (c # cs) \<and>
      m \<in> set (rmatch ic r \<lparr>pos = j, rest = drop (Suc k) (c # cs), caps = []\<rparr>)"
      by simp
    then show ?thesis by blast
  next
    case (Cons m' ms)
    with Cons.prems have "j = i" "m = m'" by simp_all
    with Cons have "j = i + 0 \<and> 0 \<le> length (c # cs) \<and>
      m \<in> set (rmatch ic r \<lparr>pos = j, rest = drop 0 (c # cs), caps = []\<rparr>)"
      by simp
    then show ?thesis by blast
  qed
qed

lemma exec_all_elem:
  "exec_all ic r s li = Some ms \<Longrightarrow> (j, m) \<in> set ms \<Longrightarrow>
     j \<le> length s \<and> m \<in> set (rmatch ic r \<lparr>pos = j, rest = drop j s, caps = []\<rparr>)"
proof (induction ic r s li arbitrary: ms rule: exec_all.induct)
  case (1 ic r s li)
  show ?case
  proof (cases "length s < li")
    case True
    with "1.prems" show ?thesis by (simp add: exec_all.simps[of ic r s li])
  next
    case False
    show ?thesis
    proof (cases "search ic r li (drop li s)")
      case None
      with False "1.prems" show ?thesis by (simp add: exec_all.simps[of ic r s li])
    next
      case (Some im)
      obtain i m0 where im: "im = (i, m0)" by (cases im)
      with Some False "1.prems"(1) obtain ms' where
        gt: "\<not> pos m0 \<le> li" and rec: "exec_all ic r s (pos m0) = Some ms'" and ms: "ms = (i, m0) # ms'"
        by (auto simp: exec_all.simps[of ic r s li] split: if_splits option.splits)
      show ?thesis
      proof (cases "(j, m) = (i, m0)")
        case True
        from search_elem[OF Some[unfolded im]] False True show ?thesis
          by (auto simp: add.commute)
      next
        case False
        with ms "1.prems"(2) have "(j, m) \<in> set ms'" by auto
        from "1.IH"[OF \<open>\<not> length s < li\<close> Some[unfolded im] refl gt rec this] show ?thesis .
      qed
    qed
  qed
qed

lemma exec_all_total:
  "(\<forall>st m. m \<in> set (rmatch ic r st) \<longrightarrow> pos st < pos m) \<Longrightarrow>
     \<exists>ms. exec_all ic r s li = Some ms"
proof (induction ic r s li rule: exec_all.induct)
  case (1 ic r s li)
  from "1.prems" have progress: "\<And>st m. m \<in> set (rmatch ic r st) \<Longrightarrow> pos st < pos m"
    by blast
  show ?case
  proof (cases "length s < li")
    case True
    then show ?thesis by (simp add: exec_all.simps[of ic r s li])
  next
    case False
    show ?thesis
    proof (cases "search ic r li (drop li s)")
      case None
      with False show ?thesis by (simp add: exec_all.simps[of ic r s li])
    next
      case (Some im)
      obtain i m0 where im: "im = (i, m0)" by (cases im)
      from search_elem[OF Some[unfolded im]] obtain k where
        k: "i = li + k" "m0 \<in> set (rmatch ic r \<lparr>pos = i, rest = drop k (drop li s), caps = []\<rparr>)"
        by blast
      from progress[OF k(2)] k(1) have gt: "\<not> pos m0 \<le> li" by simp
      from "1.IH"[OF False Some[unfolded im] refl gt "1.prems"] obtain ms' where
        "exec_all ic r s (pos m0) = Some ms'" by blast
      with False Some im gt show ?thesis by (simp add: exec_all.simps[of ic r s li])
    qed
  qed
qed

lemma rmatch_mono: "m \<in> set (rmatch ic r st) \<Longrightarrow> pos st \<le> pos m"
  using rmatch_suffix by fastforce

lemma imageRegex_progress: "m \<in> set (rmatch False imageRegex st) \<Longrightarrow> pos st < pos m"
  using imageRegex_match by fastforce

lemma seqs_lit_progress:
  assumes "m \<in> set (rmatch ic (seqs (lit (c # cs) # rs)) st)"
  shows "pos st < pos m"
proof -
  from rmatch_seqs_Cons_elem[OF assms] obtain m1 where m1: "m1 \<in> set (rmatch ic (lit (c # cs)) st)"
    and m: "m \<in> set (rmatch ic (seqs rs) m1)"
    by blast
  from m1 have "m1 \<in> set (rmatch ic (seqs (Chr c # map Chr cs)) st)" by (simp add: lit_def)
  from rmatch_seqs_Cons_elem[OF this] obtain m0 where m0: "m0 \<in> set (rmatch ic (Chr c) st)"
    and m1': "m1 \<in> set (rmatch ic (seqs (map Chr cs)) m0)"
    by blast
  from rmatch_Chr_elem[OF m0] have "pos m0 = Suc (pos st)" by blast
  with rmatch_mono[OF m1'] rmatch_mono[OF m] show ?thesis by simp
qed

lemma htmlImageRegex_progress: "m \<in> set (rmatch True htmlImageRegex st) \<Longrightarrow> pos st < pos m"
  unfolding htmlImageRegex_def by (rule seqs_lit_progress)

lemma analyzeImages_total: "\<exists>images. analyzeImages content = Some images"
proof -
  have "\<forall>st m. m \<in> set (rmatch False imageRegex st) \<longrightarrow> pos st < pos m"
    using imageRegex_progress by blast
  from exec_all_total[OF this] obtain ms where ms: "exec_all False imageRegex content 0 = Some ms"
    by blast
  have "\<forall>st m. m \<in> set (rmatch True htmlImageRegex st) \<longrightarrow> pos st < pos m"
    using htmlImageRegex_progress by blast
  from exec_all_total[OF this] obtain hs where hs: "exec_all True htmlImageRegex content 0 = Some hs"
    by blast
  from ms hs show ?thesis by (simp add: analyzeImages_def)
qed

lemma analyzeImages_markdown:
  assumes "analyzeImages content = Some images" and "Markdown f a s i \<in> set images"
  shows "f = ''!['' @ a @ '']('' @ s @ '')'' \<and> s \<noteq> [] \<and> take (length f) (drop i content) = f"
proof -
  from assms(1) obtain ms hs where ms: "exec_all False imageRegex content 0 = Some ms"
    and images: "images = map (markdown_image content) ms @ map (html_image content) hs"
    by (auto simp: analyzeImages_def split: option.splits)
  from assms(2) images obtain im where im: "im \<in> set ms" and eq: "Markdown f a s i = markdown_image content im"
    by (auto simp: html_image_def)
  obtain j m where jm: "im = (j, m)" by (cases im)
  from exec_all_elem[OF ms im[unfolded jm]] have
    j: "j \<le> length content" and m: "m \<in> set (rmatch False imageRegex \<lparr>pos = j, rest = drop j content, caps = []\<rparr>)"
    by simp_all
  from imageRegex_match[OF m] obtain a' s' where s': "s' \<noteq> []"
    and rest: "drop j content = ''!['' @ a' @ '']('' @ s' @ '')'' @ rest m"
    and pos: "pos m = j + length (''!['' @ a' @ '']('' @ s' @ '')'')"
    and caps: "caps m = [(2, s'), (1, a')]"
    by auto
  define w where "w = ''!['' @ a' @ '']('' @ s' @ '')''"
  from rest have rest': "drop j content = w @ rest m" by (simp add: w_def)
  from pos have pos': "pos m - j = length w" by (simp add: w_def)
  from eq jm have f: "f = take (pos m - j) (drop j content)" and a: "a = capture m 1"
    and s: "s = capture m 2" and i: "i = j"
    by (simp_all add: markdown_image_def matched_def)
  from f rest' pos' have fw: "f = w" by simp
  from a s caps have as: "a = a'" "s = s'" by (simp_all add: capture_def)
  from fw rest' i have "take (length f) (drop i content) = f" by simp
  with fw as s' show ?thesis by (simp add: w_def)
qed

section \<open>Strings\<close>

lemma includes_str_sublist: "includes_str s p \<longleftrightarrow> sublist p s"
  by (induction s) (simp_all add: sublist_Cons_right)

lemma isAssetImage_iff: "isAssetImage src \<longleftrightarrow> includes_str src ''/assets/''"
proof -
  have "sublist ''/assets/'' src" if "prefix (''.'' @ ''/assets/'') src"
  proof -
    from that obtain t where "src = ''.'' @ ''/assets/'' @ t" by (auto simp: prefix_def)
    then show ?thesis by (simp only: sublist_appendI)
  qed
  moreover have "sublist ''/assets/'' src" if "prefix (''..'' @ ''/assets/'') src"
  proof -
    from that obtain t where "src = ''..'' @ ''/assets/'' @ t" by (auto simp: prefix_def)
    then show ?thesis by (simp only: sublist_appendI)
  qed
  ultimately show ?thesis
    by (auto simp: isAssetImage_def startsWith_def includes_str_sublist)
qed

lemma isAssetImage_includes_assets: "isAssetImage src \<Longrightarrow> includes_str src ''assets/''"
proof -
  assume "isAssetImage src"
  then have "sublist (''/'' @ ''assets/'') src" by (simp add: isAssetImage_iff includes_str_sublist)
  then obtain ps ss where "src = (ps @ ''/'') @ ''assets/'' @ ss" by (auto simp: sublist_def)
  then have "sublist ''assets/'' src" by (simp only: sublist_appendI)
  then show ?thesis by (simp add: includes_str_sublist)
qed

lemma analyzeImages_ex1:
  \<open>analyzeImages ''see ![logo](https://example.com/logo.png)'' =
     Some [Markdown ''![logo](https://example.com/logo.png)'' ''logo'' ''https://example.com/logo.png'' 4]\<close>
  by (simp add: analyzeImages_def exec_all.simps imageRegex_def htmlImageRegex_def
      seqs_def lit_def Plus_def step_char_def advance_def canonicalize_def toUpperCase_char_def
      markdown_image_def html_image_def matched_def capture_def rmatch.simps(10))

section \<open>Non-asset references pass through\<close>

text \<open>
  C3. A markdown reference whose path does not contain \<^verbatim>\<open>assets/\<close> is rewritten to the text
  \<^verbatim>\<open>![alt](path)\<close>, whatever the options are, and for a reference the scanner found that
  text is the matched text \<^verbatim>\<open>full\<close> itself.
\<close>

theorem nonasset_markdown_passthrough:
  "(\<not> includes_str src ''assets/'' \<longrightarrow>
      optimizeMarkdownImage opts alt src = ''!['' @ alt @ '']('' @ src @ '')'') \<and>
   (analyzeImages content = Some images \<and> Markdown f a s i \<in> set images \<and>
      \<not> includes_str s ''assets/'' \<longrightarrow> optimized_of opts (Markdown f a s i) = f)"
proof (intro conjI impI)
  assume "\<not> includes_str src ''assets/''"
  with isAssetImage_includes_assets have "\<not> isAssetImage src" by blast
  then show "optimizeMarkdownImage opts alt src = ''!['' @ alt @ '']('' @ src @ '')''"
    by (simp add: optimizeMarkdownImage_def)
next
  assume h: "analyzeImages content = Some images \<and> Markdown f a s i \<in> set images \<and>
      \<not> includes_str s ''assets/''"
  with isAssetImage_includes_assets have "\<not> isAssetImage s" by blast
  moreover from h analyzeImages_markdown have "f = ''!['' @ a @ '']('' @ s @ '')''" by blast
  ultimately show "optimized_of opts (Markdown f a s i) = f"
    by (simp add: optimizeMarkdownImage_def)
qed

theorem nonasset_markdown_passthrough_witness:
  \<open>\<not> includes_str ''https://example.com/logo.png'' ''assets/'' \<and>
   optimizeMarkdownImage default_options ''logo'' ''https://example.com/logo.png'' =
     ''![logo](https://example.com/logo.png)'' \<and>
   analyzeImages ''see ![logo](https://example.com/logo.png)'' =
     Some [Markdown ''![logo](https://example.com/logo.png)'' ''logo'' ''https://example.com/logo.png'' 4] \<and>
   optimized_of default_options
     (Markdown ''![logo](https://example.com/logo.png)'' ''logo'' ''https://example.com/logo.png'' 4) =
     ''![logo](https://example.com/logo.png)''\<close>
proof -
  have h: \<open>\<not> includes_str ''https://example.com/logo.png'' ''assets/''\<close> by simp
  from nonasset_markdown_passthrough[of "''https://example.com/logo.png''" default_options "''logo''"
      "''see ![logo](https://example.com/logo.png)''"
      "[Markdown ''![logo](https://example.com/logo.png)'' ''logo'' ''https://example.com/logo.png'' 4]"
      "''![logo](https://example.com/logo.png)''" "''logo''" "''https://example.com/logo.png''" 4]
    h analyzeImages_ex1
  show ?thesis by simp
qed

section \<open>The asset classification\<close>

text \<open>
  C4, as amended. A markdown reference is an asset image exactly when its path starts with
  \<^verbatim>\<open>./assets/\<close> or \<^verbatim>\<open>../assets/\<close> or contains \<^verbatim>\<open>/assets/\<close>, which is the same as containing
  \<^verbatim>\<open>/assets/\<close>. Such a path contains \<^verbatim>\<open>assets/\<close>, and the reference is rewritten (to something
  other than \<^verbatim>\<open>![alt](path)\<close>) exactly when it is an asset image. The converse fails: the
  path \<^verbatim>\<open>assets/logo.png\<close> contains \<^verbatim>\<open>assets/\<close> and is not an asset image.
\<close>

theorem isAssetImage_classification:
  "isAssetImage src =
     (startsWith src ''./assets/'' \<or> startsWith src ''../assets/'' \<or> includes_str src ''/assets/'') \<and>
   isAssetImage src = includes_str src ''/assets/'' \<and>
   (isAssetImage src \<longrightarrow> includes_str src ''assets/'') \<and>
   (optimizeMarkdownImage opts alt src \<noteq> ''!['' @ alt @ '']('' @ src @ '')'') = isAssetImage src"
proof (intro conjI)
  show "isAssetImage src =
     (startsWith src ''./assets/'' \<or> startsWith src ''../assets/'' \<or> includes_str src ''/assets/'')"
    by (simp add: isAssetImage_def)
  show "isAssetImage src = includes_str src ''/assets/''"
    by (rule isAssetImage_iff)
  show "isAssetImage src \<longrightarrow> includes_str src ''assets/''"
    by (simp add: isAssetImage_includes_assets)
  show "(optimizeMarkdownImage opts alt src \<noteq> ''!['' @ alt @ '']('' @ src @ '')'') = isAssetImage src"
    by (simp add: optimizeMarkdownImage_def Let_def)
qed

theorem isAssetImage_classification_witness:
  "isAssetImage ''docs/assets/a.png'' \<and> includes_str ''docs/assets/a.png'' ''/assets/'' \<and>
   includes_str ''docs/assets/a.png'' ''assets/'' \<and>
   optimizeMarkdownImage default_options ''a'' ''docs/assets/a.png'' \<noteq> ''![a](docs/assets/a.png)''"
  using isAssetImage_classification[of "''docs/assets/a.png''" default_options "''a''"]
  by (simp add: startsWith_def)

theorem isAssetImage_counterexample:
  "includes_str ''assets/logo.png'' ''assets/'' \<and> \<not> isAssetImage ''assets/logo.png''"
  by (simp add: isAssetImage_def startsWith_def)

section \<open>HTML tags\<close>

text \<open>
  C9. A tag that contains \<^verbatim>\<open>loading=\<close> and also \<^verbatim>\<open><picture>\<close> or \<^verbatim>\<open>srcset\<close> is returned as it
  is; so is the tag \<^verbatim>\<open><img src="x.png" loading="lazy" srcset="x.webp">\<close>.
\<close>

theorem optimizeHtmlImage_already_optimized:
  \<open>(includes_str imgTag ''loading='' \<and>
      (includes_str imgTag ''<picture>'' \<or> includes_str imgTag ''srcset'') \<longrightarrow>
      optimizeHtmlImage opts imgTag src = imgTag) \<and>
   optimizeHtmlImage opts ''<img src="x.png" loading="lazy" srcset="x.webp">'' src =
     ''<img src="x.png" loading="lazy" srcset="x.webp">''\<close>
  by (simp add: optimizeHtmlImage_def)

theorem optimizeHtmlImage_already_optimized_witness:
  \<open>includes_str ''<img loading="eager" src="<picture>">'' ''loading='' \<and>
   includes_str ''<img loading="eager" src="<picture>">'' ''<picture>'' \<and>
   optimizeHtmlImage default_options ''<img loading="eager" src="<picture>">'' ''<picture>'' =
     ''<img loading="eager" src="<picture>">''\<close>
proof -
  have h: \<open>includes_str ''<img loading="eager" src="<picture>">'' ''loading='' \<and>
   includes_str ''<img loading="eager" src="<picture>">'' ''<picture>''\<close>
    by simp
  with optimizeHtmlImage_already_optimized[of \<open>''<img loading="eager" src="<picture>">''\<close>
      default_options "''<picture>''"]
  show ?thesis by blast
qed

text \<open>
  C10. The test for an existing loading attribute is the containment of \<^verbatim>\<open>loading=\<close>: for a
  tag that contains it anywhere, the result does not depend on \<^verbatim>\<open>addLazyLoading\<close> and is the
  tag itself or the tag with the style attribute alone inserted. This holds for the tag
  with the attribute \<^verbatim>\<open>data-loading\<close> and for the tag with \<^verbatim>\<open>loading=\<close> inside a value.
\<close>

theorem optimizeHtmlImage_loading_substring:
  \<open>(includes_str imgTag ''loading='' \<longrightarrow>
      optimizeHtmlImage opts imgTag src = optimizeHtmlImage (opts\<lparr>addLazyLoading := False\<rparr>) imgTag src \<and>
      (optimizeHtmlImage opts imgTag src = imgTag \<or>
       optimizeHtmlImage opts imgTag src =
         replace_str imgTag ''<img'' ''<img style="max-width: 100%; height: auto;"'')) \<and>
   optimizeHtmlImage default_options ''<img data-loading="x" src="a.png">'' ''a.png'' =
     ''<img style="max-width: 100%; height: auto;" data-loading="x" src="a.png">'' \<and>
   optimizeHtmlImage default_options ''<img src="a.png" alt="loading=">'' ''a.png'' =
     ''<img style="max-width: 100%; height: auto;" src="a.png" alt="loading=">''\<close>
  by (simp add: optimizeHtmlImage_def default_options_def)

theorem optimizeHtmlImage_loading_substring_witness:
  \<open>includes_str ''<img data-loading="x" src="a.png">'' ''loading='' \<and>
   optimizeHtmlImage default_options ''<img data-loading="x" src="a.png">'' ''a.png'' =
     optimizeHtmlImage (default_options\<lparr>addLazyLoading := False\<rparr>)
       ''<img data-loading="x" src="a.png">'' ''a.png''\<close>
proof -
  have h: \<open>includes_str ''<img data-loading="x" src="a.png">'' ''loading=''\<close> by simp
  with optimizeHtmlImage_loading_substring[of \<open>''<img data-loading="x" src="a.png">''\<close>
      default_options "''a.png''"]
  show ?thesis by blast
qed

lemma fold_splice_unchanged:
  "\<forall>img \<in> set images. optimized_of opts img = image_full img \<Longrightarrow>
     fold (splice_image opts) images state = state"
  by (induction images arbitrary: state) (auto simp: splice_image_def split: prod.splits)

lemma fold_splice_count:
  "imagesOptimized (snd (snd (fold (splice_image opts) images state))) =
     imagesOptimized (snd (snd state)) +
       length (filter (\<lambda>img. optimized_of opts img \<noteq> image_full img) images)"
proof (induction images arbitrary: state)
  case Nil
  then show ?case by simp
next
  case (Cons img images)
  obtain c off st where state: "state = (c, off, st)" by (cases state)
  show ?case
    by (simp add: Cons.IH) (simp add: splice_image_def state Let_def)
qed

lemmas scan_simps =
  analyzeImages_def exec_all.simps imageRegex_def htmlImageRegex_def
  seqs_def lit_def Plus_def step_char_def advance_def canonicalize_def toUpperCase_char_def
  isWhiteSpace_def markdown_image_def html_image_def matched_def capture_def rmatch.simps(10)

section \<open>The scanner on empty spans\<close>

lemma analyzeImages_empty_alt:
  \<open>analyzeImages ''![](x.png)'' = Some [Markdown ''![](x.png)'' [] ''x.png'' 0]\<close>
  by (simp add: scan_simps)

text \<open>
  C6, as amended. The scanner accepts an empty alt text and keeps it, and it needs a path of
  at least one character: every markdown reference it returns has a non-empty path, the
  document \<^verbatim>\<open>![](x.png)\<close> gives one reference with the alt text empty, and the document
  \<^verbatim>\<open>![alt]()\<close> gives no reference.
\<close>

theorem markdown_path_nonempty:
  \<open>(analyzeImages content = Some images \<and> Markdown f a s i \<in> set images \<longrightarrow> s \<noteq> []) \<and>
   analyzeImages ''![](x.png)'' = Some [Markdown ''![](x.png)'' [] ''x.png'' 0] \<and>
   analyzeImages ''![alt]()'' = Some []\<close>
proof (intro conjI impI)
  assume "analyzeImages content = Some images \<and> Markdown f a s i \<in> set images"
  with analyzeImages_markdown show "s \<noteq> []" by blast
next
  show \<open>analyzeImages ''![](x.png)'' = Some [Markdown ''![](x.png)'' [] ''x.png'' 0]\<close>
    by (rule analyzeImages_empty_alt)
next
  show \<open>analyzeImages ''![alt]()'' = Some []\<close>
    by (simp add: scan_simps)
qed

theorem markdown_path_nonempty_witness:
  \<open>analyzeImages ''![](x.png)'' = Some [Markdown ''![](x.png)'' [] ''x.png'' 0] \<and>
   ''x.png'' \<noteq> []\<close>
  using markdown_path_nonempty[of "''![](x.png)''" "[Markdown ''![](x.png)'' [] ''x.png'' 0]"
      "''![](x.png)''" "[]" "''x.png''" 0]
  by simp

theorem empty_path_counterexample:
  \<open>analyzeImages ''![alt]()'' = Some []\<close>
  by (simp add: scan_simps)

section \<open>Reassembly\<close>

lemma analyzeImages_two_nonasset:
  \<open>analyzeImages ''a ![x](b.png) and ![y](http://c/d.png)'' =
     Some [Markdown ''![x](b.png)'' ''x'' ''b.png'' 2,
           Markdown ''![y](http://c/d.png)'' ''y'' ''http://c/d.png'' 18]\<close>
  by (simp add: scan_simps)

lemma analyzeImages_none:
  \<open>analyzeImages ''no images here'' = Some []\<close>
  by (simp add: scan_simps)

text \<open>
  C7. For a document in which the scanner finds no reference, and for a document in which
  it finds only markdown references that are not asset images, the call returns the
  document itself and leaves the statistics as they were.
\<close>

theorem roundtrip_identity:
  "(analyzeImages content = Some [] \<longrightarrow>
      optimizeImageReferences opts st content = Some (content, st)) \<and>
   (analyzeImages content = Some images \<and>
      (\<forall>img \<in> set images. \<exists>f a s i. img = Markdown f a s i \<and> \<not> isAssetImage s) \<longrightarrow>
      optimizeImageReferences opts st content = Some (content, st))"
proof (intro conjI impI)
  assume "analyzeImages content = Some []"
  then show "optimizeImageReferences opts st content = Some (content, st)"
    by (simp add: optimizeImageReferences_def)
next
  assume h: "analyzeImages content = Some images \<and>
      (\<forall>img \<in> set images. \<exists>f a s i. img = Markdown f a s i \<and> \<not> isAssetImage s)"
  have "\<forall>img \<in> set images. optimized_of opts img = image_full img"
  proof
    fix img assume img: "img \<in> set images"
    with h obtain f a s i where eq: "img = Markdown f a s i" and na: "\<not> isAssetImage s" by blast
    from h img eq analyzeImages_markdown have "f = ''!['' @ a @ '']('' @ s @ '')''" by blast
    with eq na show "optimized_of opts img = image_full img"
      by (simp add: optimizeMarkdownImage_def)
  qed
  from fold_splice_unchanged[OF this] h
  show "optimizeImageReferences opts st content = Some (content, st)"
    by (simp add: optimizeImageReferences_def)
qed

theorem roundtrip_identity_witness:
  \<open>analyzeImages ''no images here'' = Some [] \<and>
   optimizeImageReferences default_options \<lparr>filesProcessed = 0, imagesOptimized = 0, backupsCreated = 0\<rparr>
     ''no images here'' =
     Some (''no images here'', \<lparr>filesProcessed = 0, imagesOptimized = 0, backupsCreated = 0\<rparr>) \<and>
   analyzeImages ''a ![x](b.png) and ![y](http://c/d.png)'' =
     Some [Markdown ''![x](b.png)'' ''x'' ''b.png'' 2,
           Markdown ''![y](http://c/d.png)'' ''y'' ''http://c/d.png'' 18] \<and>
   \<not> isAssetImage ''b.png'' \<and> \<not> isAssetImage ''http://c/d.png'' \<and>
   optimizeImageReferences default_options \<lparr>filesProcessed = 0, imagesOptimized = 0, backupsCreated = 0\<rparr>
     ''a ![x](b.png) and ![y](http://c/d.png)'' =
     Some (''a ![x](b.png) and ![y](http://c/d.png)'',
           \<lparr>filesProcessed = 0, imagesOptimized = 0, backupsCreated = 0\<rparr>)\<close>
proof -
  have na: \<open>\<not> isAssetImage ''b.png'' \<and> \<not> isAssetImage ''http://c/d.png''\<close>
    by (simp add: isAssetImage_def startsWith_def)
  from roundtrip_identity[of "''no images here''" default_options
      "\<lparr>filesProcessed = 0, imagesOptimized = 0, backupsCreated = 0\<rparr>" "[]"] analyzeImages_none
  have a: \<open>optimizeImageReferences default_options \<lparr>filesProcessed = 0, imagesOptimized = 0, backupsCreated = 0\<rparr>
     ''no images here'' =
     Some (''no images here'', \<lparr>filesProcessed = 0, imagesOptimized = 0, backupsCreated = 0\<rparr>)\<close>
    by blast
  from roundtrip_identity[of "''a ![x](b.png) and ![y](http://c/d.png)''" default_options
      "\<lparr>filesProcessed = 0, imagesOptimized = 0, backupsCreated = 0\<rparr>"
      "[Markdown ''![x](b.png)'' ''x'' ''b.png'' 2,
           Markdown ''![y](http://c/d.png)'' ''y'' ''http://c/d.png'' 18]"]
    analyzeImages_two_nonasset na
  have b: \<open>optimizeImageReferences default_options \<lparr>filesProcessed = 0, imagesOptimized = 0, backupsCreated = 0\<rparr>
     ''a ![x](b.png) and ![y](http://c/d.png)'' =
     Some (''a ![x](b.png) and ![y](http://c/d.png)'',
           \<lparr>filesProcessed = 0, imagesOptimized = 0, backupsCreated = 0\<rparr>)\<close>
    by simp
  from a b na analyzeImages_none analyzeImages_two_nonasset show ?thesis by blast
qed

lemmas rewrite_simps =
  optimizeImageReferences_def splice_image_def optimizeMarkdownImage_def optimizeHtmlImage_def
  optimizeAltText_def isAssetImage_def startsWith_def replace_regex_def webpRegex_def
  altPrefixRegex_def altExtRegex_def alts_def trim_def toUpperCase_def charAt_def slice_def slice_from_def
  slice_index_def default_options_def Let_def

lemma analyzeImages_three:
  \<open>analyzeImages ''![a](x.png) ![b](./assets/b.png) ![c](http://e/c.png)'' =
     Some [Markdown ''![a](x.png)'' ''a'' ''x.png'' 0,
           Markdown ''![b](./assets/b.png)'' ''b'' ''./assets/b.png'' 12,
           Markdown ''![c](http://e/c.png)'' ''c'' ''http://e/c.png'' 33]\<close>
  by (simp add: scan_simps)

lemma count_three:
  \<open>map_option (imagesOptimized \<circ> snd)
     (optimizeImageReferences default_options
        \<lparr>filesProcessed = 0, imagesOptimized = 0, backupsCreated = 0\<rparr>
        ''![a](x.png) ![b](./assets/b.png) ![c](http://e/c.png)'') = Some 1\<close>
  by (simp add: analyzeImages_three optimizeImageReferences_def)
     (simp add: rewrite_simps scan_simps)

lemma analyzeImages_three_bare:
  \<open>analyzeImages ''![a](x.png) ![b](assets/b.png) ![c](http://e/c.png)'' =
     Some [Markdown ''![a](x.png)'' ''a'' ''x.png'' 0,
           Markdown ''![b](assets/b.png)'' ''b'' ''assets/b.png'' 12,
           Markdown ''![c](http://e/c.png)'' ''c'' ''http://e/c.png'' 31]\<close>
  by (simp add: scan_simps)

lemma markdown_rewritten_iff:
  "(optimizeMarkdownImage opts alt src \<noteq> ''!['' @ alt @ '']('' @ src @ '')'') = isAssetImage src"
  by (simp add: optimizeMarkdownImage_def Let_def)

lemma optimizeImageReferences_count:
  assumes "analyzeImages content = Some images"
  shows "\<exists>c' st'. optimizeImageReferences opts st content = Some (c', st') \<and>
      imagesOptimized st' = imagesOptimized st +
        length (filter (\<lambda>img. optimized_of opts img \<noteq> image_full img) images)"
proof -
  obtain c' off st' where f: "fold (splice_image opts) images (content, 0, st) = (c', off, st')"
    by (cases "fold (splice_image opts) images (content, 0, st)")
  from fold_splice_count[of opts images "(content, 0, st)"] f
  have "imagesOptimized st' = imagesOptimized st +
        length (filter (\<lambda>img. optimized_of opts img \<noteq> image_full img) images)"
    by simp
  moreover from assms f have "optimizeImageReferences opts st content = Some (c', st')"
    by (simp add: optimizeImageReferences_def)
  ultimately show ?thesis by blast
qed

lemma markdown_changed_iff_asset:
  assumes "analyzeImages content = Some images"
    and "\<forall>img \<in> set images. \<exists>f a s i. img = Markdown f a s i"
  shows "filter (\<lambda>img. optimized_of opts img \<noteq> image_full img) images =
         filter (\<lambda>img. isAssetImage (image_src img)) images"
proof (rule filter_cong[OF refl])
  fix img assume img: "img \<in> set images"
  with assms(2) obtain f a s i where eq: "img = Markdown f a s i" by blast
  from analyzeImages_markdown[OF assms(1) img[unfolded eq]]
  have "f = ''!['' @ a @ '']('' @ s @ '')''" by blast
  with eq markdown_rewritten_iff[of opts a s]
  show "(optimized_of opts img \<noteq> image_full img) = isAssetImage (image_src img)"
    by simp
qed

lemma markdown_count:
  assumes "analyzeImages content = Some images"
    and "\<forall>img \<in> set images. \<exists>f a s i. img = Markdown f a s i"
  shows "\<exists>c' st'. optimizeImageReferences opts st content = Some (c', st') \<and>
      imagesOptimized st' = imagesOptimized st +
        length (filter (\<lambda>img. isAssetImage (image_src img)) images)"
  using optimizeImageReferences_count[OF assms(1), of opts st]
  by (simp only: markdown_changed_iff_asset[OF assms])

text \<open>
  C8, as amended. Every call returns, and it raises the counter \<^verbatim>\<open>imagesOptimized\<close> by the
  number of scanned references whose rewritten text differs from their matched text. For
  a document whose references are all markdown references that number is the number of
  asset images among them, where an asset image is one whose path starts with
  \<^verbatim>\<open>./assets/\<close> or \<^verbatim>\<open>../assets/\<close> or contains \<^verbatim>\<open>/assets/\<close>. So every document whose references
  are three markdown references of which exactly one is an asset image counts 1, and every
  document without references counts 0. Containing \<^verbatim>\<open>assets/\<close> is not enough: with the path
  \<^verbatim>\<open>assets/b.png\<close> in the place of \<^verbatim>\<open>./assets/b.png\<close> the count is 0.
\<close>

theorem optimized_count:
  \<open>(\<exists>images c' st'. analyzeImages content = Some images \<and>
      optimizeImageReferences opts st content = Some (c', st') \<and>
      imagesOptimized st' = imagesOptimized st +
        length (filter (\<lambda>img. optimized_of opts img \<noteq> image_full img) images)) \<and>
   (analyzeImages content = Some images \<and>
      (\<forall>img \<in> set images. \<exists>f a s i. img = Markdown f a s i) \<longrightarrow>
      (\<exists>c' st'. optimizeImageReferences opts st content = Some (c', st') \<and>
         imagesOptimized st' = imagesOptimized st +
           length (filter (\<lambda>img. isAssetImage (image_src img)) images))) \<and>
   (analyzeImages content = Some images \<and>
      (\<forall>img \<in> set images. \<exists>f a s i. img = Markdown f a s i) \<and> length images = 3 \<and>
      length (filter (\<lambda>img. isAssetImage (image_src img)) images) = 1 \<longrightarrow>
      (\<exists>c' st'. optimizeImageReferences opts st content = Some (c', st') \<and>
         imagesOptimized st' = imagesOptimized st + 1)) \<and>
   (analyzeImages content = Some [] \<longrightarrow>
      (\<exists>c' st'. optimizeImageReferences opts st content = Some (c', st') \<and>
         imagesOptimized st' = imagesOptimized st)) \<and>
   map_option (imagesOptimized \<circ> snd)
     (optimizeImageReferences default_options
        \<lparr>filesProcessed = 0, imagesOptimized = 0, backupsCreated = 0\<rparr>
        ''![a](x.png) ![b](./assets/b.png) ![c](http://e/c.png)'') = Some 1 \<and>
   map_option (imagesOptimized \<circ> snd)
     (optimizeImageReferences default_options
        \<lparr>filesProcessed = 0, imagesOptimized = 0, backupsCreated = 0\<rparr>
        ''no images here'') = Some 0\<close>
proof (intro conjI impI)
  from analyzeImages_total obtain images' where images': "analyzeImages content = Some images'"
    by blast
  from optimizeImageReferences_count[OF this, of opts st] images'
  show "\<exists>images c' st'. analyzeImages content = Some images \<and>
      optimizeImageReferences opts st content = Some (c', st') \<and>
      imagesOptimized st' = imagesOptimized st +
        length (filter (\<lambda>img. optimized_of opts img \<noteq> image_full img) images)"
    by blast
next
  assume "analyzeImages content = Some images \<and>
      (\<forall>img \<in> set images. \<exists>f a s i. img = Markdown f a s i)"
  then show "\<exists>c' st'. optimizeImageReferences opts st content = Some (c', st') \<and>
         imagesOptimized st' = imagesOptimized st +
           length (filter (\<lambda>img. isAssetImage (image_src img)) images)"
    using markdown_count by blast
next
  assume h: "analyzeImages content = Some images \<and>
      (\<forall>img \<in> set images. \<exists>f a s i. img = Markdown f a s i) \<and> length images = 3 \<and>
      length (filter (\<lambda>img. isAssetImage (image_src img)) images) = 1"
  then have "\<exists>c' st'. optimizeImageReferences opts st content = Some (c', st') \<and>
         imagesOptimized st' = imagesOptimized st +
           length (filter (\<lambda>img. isAssetImage (image_src img)) images)"
    using markdown_count by blast
  with h show "\<exists>c' st'. optimizeImageReferences opts st content = Some (c', st') \<and>
         imagesOptimized st' = imagesOptimized st + 1"
    by simp
next
  assume "analyzeImages content = Some []"
  from optimizeImageReferences_count[OF this, of opts st]
  show "\<exists>c' st'. optimizeImageReferences opts st content = Some (c', st') \<and>
         imagesOptimized st' = imagesOptimized st"
    by simp
next
  show \<open>map_option (imagesOptimized \<circ> snd)
     (optimizeImageReferences default_options
        \<lparr>filesProcessed = 0, imagesOptimized = 0, backupsCreated = 0\<rparr>
        ''![a](x.png) ![b](./assets/b.png) ![c](http://e/c.png)'') = Some 1\<close>
    by (rule count_three)
next
  show \<open>map_option (imagesOptimized \<circ> snd)
     (optimizeImageReferences default_options
        \<lparr>filesProcessed = 0, imagesOptimized = 0, backupsCreated = 0\<rparr>
        ''no images here'') = Some 0\<close>
    by (simp add: analyzeImages_none optimizeImageReferences_def)
qed

theorem optimized_count_witness:
  \<open>analyzeImages ''![a](x.png) ![b](./assets/b.png) ![c](http://e/c.png)'' =
     Some [Markdown ''![a](x.png)'' ''a'' ''x.png'' 0,
           Markdown ''![b](./assets/b.png)'' ''b'' ''./assets/b.png'' 12,
           Markdown ''![c](http://e/c.png)'' ''c'' ''http://e/c.png'' 33] \<and>
   length (filter (\<lambda>img. isAssetImage (image_src img))
     [Markdown ''![a](x.png)'' ''a'' ''x.png'' 0,
      Markdown ''![b](./assets/b.png)'' ''b'' ''./assets/b.png'' 12,
      Markdown ''![c](http://e/c.png)'' ''c'' ''http://e/c.png'' 33]) = 1 \<and>
   (\<exists>c' st'. optimizeImageReferences (default_options\<lparr>addLazyLoading := False\<rparr>)
        \<lparr>filesProcessed = 0, imagesOptimized = 5, backupsCreated = 0\<rparr>
        ''![a](x.png) ![b](./assets/b.png) ![c](http://e/c.png)'' = Some (c', st') \<and>
      imagesOptimized st' = 6)\<close>
proof -
  let ?images = "[Markdown ''![a](x.png)'' ''a'' ''x.png'' 0,
      Markdown ''![b](./assets/b.png)'' ''b'' ''./assets/b.png'' 12,
      Markdown ''![c](http://e/c.png)'' ''c'' ''http://e/c.png'' 33]"
  have md: "\<forall>img \<in> set ?images. \<exists>f a s i. img = Markdown f a s i" by simp
  have three: "length ?images = 3" by simp
  have one: "length (filter (\<lambda>img. isAssetImage (image_src img)) ?images) = 1"
    by (simp add: isAssetImage_def startsWith_def)
  from optimized_count[of "''![a](x.png) ![b](./assets/b.png) ![c](http://e/c.png)''"
      "default_options\<lparr>addLazyLoading := False\<rparr>"
      "\<lparr>filesProcessed = 0, imagesOptimized = 5, backupsCreated = 0\<rparr>" ?images]
    analyzeImages_three md three one
  have "\<exists>c' st'. optimizeImageReferences (default_options\<lparr>addLazyLoading := False\<rparr>)
        \<lparr>filesProcessed = 0, imagesOptimized = 5, backupsCreated = 0\<rparr>
        ''![a](x.png) ![b](./assets/b.png) ![c](http://e/c.png)'' = Some (c', st') \<and>
      imagesOptimized st' =
        imagesOptimized \<lparr>filesProcessed = 0, imagesOptimized = 5, backupsCreated = 0\<rparr> + 1"
    by blast
  then have "\<exists>c' st'. optimizeImageReferences (default_options\<lparr>addLazyLoading := False\<rparr>)
        \<lparr>filesProcessed = 0, imagesOptimized = 5, backupsCreated = 0\<rparr>
        ''![a](x.png) ![b](./assets/b.png) ![c](http://e/c.png)'' = Some (c', st') \<and>
      imagesOptimized st' = 6"
    by simp
  with analyzeImages_three one show ?thesis by blast
qed

theorem bare_assets_count_counterexample:
  \<open>analyzeImages ''![a](x.png) ![b](assets/b.png) ![c](http://e/c.png)'' =
     Some [Markdown ''![a](x.png)'' ''a'' ''x.png'' 0,
           Markdown ''![b](assets/b.png)'' ''b'' ''assets/b.png'' 12,
           Markdown ''![c](http://e/c.png)'' ''c'' ''http://e/c.png'' 31] \<and>
   length (filter (\<lambda>img. includes_str (image_src img) ''assets/'')
     [Markdown ''![a](x.png)'' ''a'' ''x.png'' 0,
      Markdown ''![b](assets/b.png)'' ''b'' ''assets/b.png'' 12,
      Markdown ''![c](http://e/c.png)'' ''c'' ''http://e/c.png'' 31]) = 1 \<and>
   map_option (imagesOptimized \<circ> snd)
     (optimizeImageReferences default_options
        \<lparr>filesProcessed = 0, imagesOptimized = 0, backupsCreated = 0\<rparr>
        ''![a](x.png) ![b](assets/b.png) ![c](http://e/c.png)'') = Some 0\<close>
proof (intro conjI)
  show \<open>analyzeImages ''![a](x.png) ![b](assets/b.png) ![c](http://e/c.png)'' =
     Some [Markdown ''![a](x.png)'' ''a'' ''x.png'' 0,
           Markdown ''![b](assets/b.png)'' ''b'' ''assets/b.png'' 12,
           Markdown ''![c](http://e/c.png)'' ''c'' ''http://e/c.png'' 31]\<close>
    by (rule analyzeImages_three_bare)
  show \<open>length (filter (\<lambda>img. includes_str (image_src img) ''assets/'')
     [Markdown ''![a](x.png)'' ''a'' ''x.png'' 0,
      Markdown ''![b](assets/b.png)'' ''b'' ''assets/b.png'' 12,
      Markdown ''![c](http://e/c.png)'' ''c'' ''http://e/c.png'' 31]) = 1\<close>
    by simp
  show \<open>map_option (imagesOptimized \<circ> snd)
     (optimizeImageReferences default_options
        \<lparr>filesProcessed = 0, imagesOptimized = 0, backupsCreated = 0\<rparr>
        ''![a](x.png) ![b](assets/b.png) ![c](http://e/c.png)'') = Some 0\<close>
    by (simp add: analyzeImages_three_bare optimizeImageReferences_def)
       (simp add: rewrite_simps)
qed

section \<open>The rewrite of an asset image\<close>

lemmas regex_simps =
  seqs_def lit_def Plus_def step_char_def advance_def canonicalize_def
  toUpperCase_char_def isWhiteSpace_def capture_def rmatch.simps(10)

lemma login_rewrite:
  \<open>optimizeMarkdownImage default_options ''A screenshot of the login page'' ''./assets/login.png'' =
     ''<picture>\<newline>  <source srcset="./assets/login.webp" type="image/webp">\<newline>  <img src="./assets/login.png" alt="A screenshot of the login page" loading="lazy" style="max-width: 100%; height: auto;">\<newline></picture>''\<close>
  by (simp add: rewrite_simps regex_simps)

lemma login_scan:
  \<open>analyzeImages ''![A screenshot of the login page](./assets/login.png)'' =
     Some [Markdown ''![A screenshot of the login page](./assets/login.png)''
             ''A screenshot of the login page'' ''./assets/login.png'' 0]\<close>
  by (simp add: scan_simps)

text \<open>
  C1, as amended. The scanner reads \<^verbatim>\<open>![A screenshot of the login page](./assets/login.png)\<close>
  as one markdown reference, and its rewritten text contains
  \<^verbatim>\<open>srcset="./assets/login.webp"\<close>, \<^verbatim>\<open>type="image/webp"\<close>, \<^verbatim>\<open>src="./assets/login.png"\<close>,
  \<^verbatim>\<open>alt="A screenshot of the login page"\<close> and \<^verbatim>\<open>loading="lazy"\<close>. The alt text stays as it
  is: the prefix pattern is anchored at the start of the alt text, where this one has
  \<^verbatim>\<open>A\<close>, and its first letter is a capital already. The alt text
  \<^verbatim>\<open>screenshot of the login page\<close> becomes \<^verbatim>\<open>The login page\<close>.
\<close>

theorem login_rewrite_shape:
  \<open>analyzeImages ''![A screenshot of the login page](./assets/login.png)'' =
     Some [Markdown ''![A screenshot of the login page](./assets/login.png)''
             ''A screenshot of the login page'' ''./assets/login.png'' 0] \<and>
   (let result = optimizeMarkdownImage default_options ''A screenshot of the login page''
                   ''./assets/login.png''
    in includes_str result ''srcset="./assets/login.webp"'' \<and>
       includes_str result ''type="image/webp"'' \<and>
       includes_str result ''src="./assets/login.png"'' \<and>
       includes_str result ''alt="A screenshot of the login page"'' \<and>
       includes_str result ''loading="lazy"'') \<and>
   optimizeAltText default_options ''A screenshot of the login page'' =
     ''A screenshot of the login page'' \<and>
   optimizeAltText default_options ''screenshot of the login page'' = ''The login page''\<close>
proof (intro conjI)
  show \<open>analyzeImages ''![A screenshot of the login page](./assets/login.png)'' =
     Some [Markdown ''![A screenshot of the login page](./assets/login.png)''
             ''A screenshot of the login page'' ''./assets/login.png'' 0]\<close>
    by (rule login_scan)
  show \<open>let result = optimizeMarkdownImage default_options ''A screenshot of the login page''
                   ''./assets/login.png''
    in includes_str result ''srcset="./assets/login.webp"'' \<and>
       includes_str result ''type="image/webp"'' \<and>
       includes_str result ''src="./assets/login.png"'' \<and>
       includes_str result ''alt="A screenshot of the login page"'' \<and>
       includes_str result ''loading="lazy"''\<close>
    by (simp add: login_rewrite)
  show \<open>optimizeAltText default_options ''A screenshot of the login page'' =
     ''A screenshot of the login page''\<close>
    by (simp add: rewrite_simps regex_simps)
  show \<open>optimizeAltText default_options ''screenshot of the login page'' = ''The login page''\<close>
    by (simp add: rewrite_simps regex_simps)
qed

theorem login_alt_counterexample:
  \<open>\<not> includes_str
       (optimizeMarkdownImage default_options ''A screenshot of the login page'' ''./assets/login.png'')
       ''alt="Login page"''\<close>
  by (simp add: login_rewrite)


section \<open>The option addLazyLoading\<close>

lemma replace_str_cases:
  "replace_str s p r = s \<or> (\<exists>pre post. s = pre @ p @ post \<and> replace_str s p r = pre @ r @ post)"
proof (induction s)
  case Nil
  then show ?case by auto
next
  case (Cons c cs)
  show ?case
  proof (cases "prefix p (c # cs)")
    case True
    then obtain t where t: "c # cs = p @ t" by (auto simp: prefix_def)
    then have "c # cs = [] @ p @ t \<and> replace_str (c # cs) p r = [] @ r @ t"
      using True by (metis append_Nil append_eq_conv_conj replace_str.simps(2))
    then show ?thesis by blast
  next
    case False
    from Cons.IH show ?thesis
    proof
      assume "replace_str cs p r = cs"
      with False show ?thesis by simp
    next
      assume "\<exists>pre post. cs = pre @ p @ post \<and> replace_str cs p r = pre @ r @ post"
      then obtain pre post where "cs = pre @ p @ post" "replace_str cs p r = pre @ r @ post"
        by blast
      with False have "c # cs = (c # pre) @ p @ post \<and> replace_str (c # cs) p r = (c # pre) @ r @ post"
        by simp
      then show ?thesis by blast
    qed
  qed
qed

lemma sublist_separator:
  assumes "c \<notin> set p" and "sublist p (a @ c # b)"
  shows "sublist p a \<or> sublist p b"
proof -
  from assms(2) consider "sublist p a" | "sublist p (c # b)"
    | xs1 xs2 where "p = xs1 @ xs2" "suffix xs1 a" "prefix xs2 (c # b)"
    by (auto simp: sublist_append)
  then show ?thesis
  proof cases
    case 1
    then show ?thesis by simp
  next
    case 2
    then have "prefix p (c # b) \<or> sublist p b" by (simp add: sublist_Cons_right)
    with assms(1) show ?thesis by (cases p) auto
  next
    case 3
    show ?thesis
    proof (cases xs2)
      case Nil
      with 3 show ?thesis by auto
    next
      case (Cons x xs)
      with 3 assms(1) show ?thesis by auto
    qed
  qed
qed

lemma style_insertion_no_loading:
  assumes \<open>\<not> includes_str imgTag ''loading=''\<close>
  shows \<open>\<not> includes_str (replace_str imgTag ''<img'' ''<img style="max-width: 100%; height: auto;"'')
           ''loading=''\<close>
proof
  let ?p = "''loading=''"
  let ?mid = \<open>''style="max-width: 100%; height: auto;''\<close>
  assume inc: \<open>includes_str (replace_str imgTag ''<img'' ''<img style="max-width: 100%; height: auto;"'') ?p\<close>
  from replace_str_cases[of imgTag "''<img''" \<open>''<img style="max-width: 100%; height: auto;"''\<close>]
  show False
  proof
    assume \<open>replace_str imgTag ''<img'' ''<img style="max-width: 100%; height: auto;"'' = imgTag\<close>
    with inc assms show False by simp
  next
    assume \<open>\<exists>pre post. imgTag = pre @ ''<img'' @ post \<and>
       replace_str imgTag ''<img'' ''<img style="max-width: 100%; height: auto;"'' =
         pre @ ''<img style="max-width: 100%; height: auto;"'' @ post\<close>
    then obtain pre post where tag: "imgTag = pre @ ''<img'' @ post"
      and res: \<open>replace_str imgTag ''<img'' ''<img style="max-width: 100%; height: auto;"'' =
         pre @ ''<img style="max-width: 100%; height: auto;"'' @ post\<close>
      by blast
    have split: \<open>pre @ ''<img style="max-width: 100%; height: auto;"'' @ post =
       (pre @ ''<img'') @ CHR '' '' # (?mid @ CHR 0x22 # post)\<close>
      by simp
    from inc res split have "sublist ?p ((pre @ ''<img'') @ CHR '' '' # (?mid @ CHR 0x22 # post))"
      by (simp only: includes_str_sublist)
    then have "sublist ?p (pre @ ''<img'') \<or> sublist ?p (?mid @ CHR 0x22 # post)"
      by (rule sublist_separator[rotated]) simp
    moreover have "sublist ?p ?mid \<or> sublist ?p post" if "sublist ?p (?mid @ CHR 0x22 # post)"
      using that by (rule sublist_separator[rotated]) simp
    moreover have "\<not> sublist ?p ?mid"
      by (simp add: includes_str_sublist[symmetric])
    ultimately have "sublist ?p (pre @ ''<img'') \<or> sublist ?p post" by blast
    then have "sublist ?p imgTag"
    proof
      assume "sublist ?p (pre @ ''<img'')"
      then obtain u v where "pre @ ''<img'' = u @ ?p @ v" by (auto simp: sublist_def)
      then have "imgTag = u @ ?p @ (v @ post)" using tag by simp
      then show ?thesis by (simp only: sublist_appendI)
    next
      assume "sublist ?p post"
      then obtain u v where "post = u @ ?p @ v" by (auto simp: sublist_def)
      then have "imgTag = (pre @ ''<img'' @ u) @ ?p @ v" using tag by simp
      then show ?thesis by (simp only: sublist_appendI)
    qed
    with assms show False by (simp add: includes_str_sublist)
  qed
qed

lemma html_respects_addLazyLoading:
  assumes "\<not> addLazyLoading opts" and \<open>\<not> includes_str imgTag ''loading=''\<close>
  shows \<open>\<not> includes_str (optimizeHtmlImage opts imgTag src) ''loading=''\<close>
  using assms style_insertion_no_loading[OF assms(2)]
  by (simp add: optimizeHtmlImage_def)

text \<open>
  C5. The rewrite of an HTML tag follows the option: with \<^verbatim>\<open>addLazyLoading\<close> off, a tag
  without \<^verbatim>\<open>loading=\<close> has none afterwards (lemma \<open>html_respects_addLazyLoading\<close>). The
  rewrite of a markdown asset image does not read the option: with \<^verbatim>\<open>addLazyLoading\<close> off,
  the reference \<^verbatim>\<open>![x](./assets/a.png)\<close>, which has no loading attribute, is rewritten to a
  text that contains \<^verbatim>\<open>loading="lazy"\<close>.
\<close>

theorem markdown_ignores_addLazyLoading:
  \<open>analyzeImages ''![x](./assets/a.png)'' =
     Some [Markdown ''![x](./assets/a.png)'' ''x'' ''./assets/a.png'' 0] \<and>
   \<not> includes_str ''![x](./assets/a.png)'' ''loading='' \<and>
   includes_str
     (optimized_of (default_options\<lparr>addLazyLoading := False\<rparr>)
        (Markdown ''![x](./assets/a.png)'' ''x'' ''./assets/a.png'' 0))
     ''loading="lazy"''\<close>
  by (simp add: scan_simps) (simp add: rewrite_simps regex_simps)

section \<open>Closed forms of the matcher on words\<close>

lemma ci_prefix_Nil [simp]: "ci_prefix ic [] t"
  by (simp add: ci_prefix_def)



lemma consume_0 [simp]: "consume 0 st = st"
  by (simp add: consume_def)















section \<open>The alt-text steps\<close>





















lemma spec_trim_start_eq: "spec_trim_start s = dropWhile isWhiteSpace s"
  by (induction s) simp_all

lemma spec_trim_end_eq: "spec_trim_end s = rev (dropWhile isWhiteSpace (rev s))"
proof (induction s)
  case Nil
  then show ?case by simp
next
  case (Cons c cs)
  show ?case
  proof (cases "\<forall>x \<in> set (rev cs). isWhiteSpace x")
    case True
    then have none: "dropWhile isWhiteSpace (rev cs) = []" by simp
    have "dropWhile isWhiteSpace (rev cs @ [c]) = dropWhile isWhiteSpace [c]"
      by (rule dropWhile_append2) (use True in blast)
    then have "rev (dropWhile isWhiteSpace (rev (c # cs))) = rev (dropWhile isWhiteSpace [c])"
      by (simp only: rev.simps)
    moreover from Cons.IH none have "spec_trim_end (c # cs) = (if isWhiteSpace c then [] else [c])"
      by (simp add: Let_def)
    ultimately show ?thesis by simp
  next
    case False
    then obtain x where x: "x \<in> set (rev cs)" "\<not> isWhiteSpace x" by blast
    then have "dropWhile isWhiteSpace (rev cs @ [c]) = dropWhile isWhiteSpace (rev cs) @ [c]"
      by (rule dropWhile_append1)
    moreover from x have "dropWhile isWhiteSpace (rev cs) \<noteq> []" by auto
    ultimately show ?thesis using Cons.IH by (simp add: Let_def)
  qed
qed

lemma trim_refines: "trim s = spec_trim s"
  by (simp add: trim_def spec_trim_def spec_trim_start_eq spec_trim_end_eq)



text \<open>
  What the trimmed string is: the string without a stretch of white space at its start and
  one at its end, and with no white space left at either end.
\<close>

lemma rev_dropWhile_takeWhile:
  "b = rev (dropWhile P (rev b)) @ rev (takeWhile P (rev b))"
  by (metis rev_append rev_rev_ident takeWhile_dropWhile_id)

lemma spec_trim_surrounding:
  "\<exists>l r. s = l @ spec_trim s @ r \<and> list_all isWhiteSpace l \<and> list_all isWhiteSpace r"
proof -
  let ?b = "dropWhile isWhiteSpace s"
  have "s = takeWhile isWhiteSpace s @ ?b" by simp
  moreover have "spec_trim s = rev (dropWhile isWhiteSpace (rev ?b))"
    by (simp add: trim_refines[symmetric] trim_def)
  with rev_dropWhile_takeWhile[of ?b isWhiteSpace]
  have "?b = spec_trim s @ rev (takeWhile isWhiteSpace (rev ?b))"
    by (simp only:)
  ultimately have "s = takeWhile isWhiteSpace s @ spec_trim s @ rev (takeWhile isWhiteSpace (rev ?b))"
    by simp
  moreover have "list_all isWhiteSpace (takeWhile isWhiteSpace s)"
    by (auto simp: list_all_iff dest: set_takeWhileD)
  moreover have "list_all isWhiteSpace (rev (takeWhile isWhiteSpace (rev ?b)))"
    by (auto simp: list_all_iff dest: set_takeWhileD)
  ultimately show ?thesis by blast
qed

lemma spec_trim_ends:
  assumes "spec_trim s \<noteq> []"
  shows "\<not> isWhiteSpace (hd (spec_trim s)) \<and> \<not> isWhiteSpace (last (spec_trim s))"
proof -
  let ?b = "dropWhile isWhiteSpace s"
  let ?e = "dropWhile isWhiteSpace (rev ?b)"
  have t: "spec_trim s = rev ?e" by (simp add: trim_refines[symmetric] trim_def)
  with assms have e: "?e \<noteq> []" by simp
  then have "\<not> isWhiteSpace (hd ?e)" by (rule hd_dropWhile)
  with e t have last: "\<not> isWhiteSpace (last (spec_trim s))" by (simp add: last_rev)
  have b: "?b \<noteq> []"
  proof
    assume "?b = []"
    then have "?e = []" by (simp only: rev.simps dropWhile.simps)
    with e show False by simp
  qed
  then have nb: "\<not> isWhiteSpace (hd ?b)" by (rule hd_dropWhile)
  from rev_dropWhile_takeWhile[of ?b isWhiteSpace] t
  have "?b = spec_trim s @ rev (takeWhile isWhiteSpace (rev ?b))" by (simp only:)
  then have "hd ?b = hd (spec_trim s @ rev (takeWhile isWhiteSpace (rev ?b)))" by (rule arg_cong)
  with assms have "hd ?b = hd (spec_trim s)" by simp
  with nb last show ?thesis by simp
qed




end
